theory Spec2Isabelle
  imports Main
begin

section \<open>Shared data\<close>

text \<open>
  A track as the pages handle it (and the spec's TrackRef): the JavaScript objects carry
  \<open>uri\<close>, \<open>name\<close>, \<open>artist\<close> and an optional \<open>album_art\<close>; search results add the
  annotations \<open>in_cooldown\<close> and \<open>recently_added\<close> (absent fields read as false).
\<close>

record track =
  uri :: string
  name :: string
  artist :: string
  album_art :: "string option"
  in_cooldown :: bool
  recently_added :: bool

text \<open>An awaited HTTP call either resolves with the response data or rejects; a rejection
  carries \<open>e.response?.data?.detail\<close> when the server sent one.\<close>

datatype 'a settled = Resolved 'a | Rejected "string option"

text \<open>A request is a GET, or a POST with a JSON object body (keys in the order written).\<close>

datatype 'e http_request = Get 'e | Post 'e "(string \<times> string option) list"

text \<open>The body every add / skip / move request is built from:
  \<open>{track_uri: track.uri, track_name: track.name, artist: track.artist, album_art: track.album_art}\<close>.\<close>

definition track_body :: "track \<Rightarrow> (string \<times> string option) list" where
  "track_body t =
     [(''track_uri'', Some (uri t)), (''track_name'', Some (name t)),
      (''artist'', Some (artist t)), (''album_art'', album_art t)]"

section \<open>The guest page (frontend/src/pages/GuestPage.js)\<close>

text \<open>The members of the \<open>endpoints\<close> object imported from \<open>../lib/api\<close>; a request is
  identified by the member it is sent to.\<close>

datatype endpoint = checkAuth | getPlaylistInfo | getNowPlaying | getQueue | search | addTrackEP

record now_playing =
  is_playing :: bool
  song_name :: string
  np_artist :: string
  np_album_art :: "string option"
  progress_ms :: nat
  duration_ms :: nat
  time_left_ms :: nat

record success_data =
  trackName :: string
  sd_artist :: string
  position :: nat

text \<open>
  The component state (one field per \<open>useState\<close> / \<open>useRef\<close>), followed by the part of the
  browser the component acts on: the clock, the pending \<open>setTimeout\<close> callbacks that delete
  a uri from \<open>addingRef\<close> (with the time they become due), the live \<open>setInterval\<close> pollers
  (endpoint and period), the add requests still awaited, the requests sent so far and the
  error toasts shown.
\<close>

record guest_page =
  nowPlaying :: "now_playing option"
  queue :: "track list"
  searchQuery :: string
  searchResults :: "track list"
  isAuthenticated :: bool
  addingTrack :: "string option"
  successData :: "success_data option"
  addingRef :: "string set"
  clock :: nat
  timeouts :: "(nat \<times> string) list"
  intervals :: "(endpoint \<times> nat) list"
  awaited :: "track list"
  sent :: "endpoint http_request list"
  toasts :: "string list"

definition initial_page :: guest_page where
  "initial_page =
     \<lparr>nowPlaying = None, queue = [], searchQuery = [], searchResults = [],
      isAuthenticated = False, addingTrack = None, successData = None, addingRef = {},
      clock = 0, timeouts = [], intervals = [], awaited = [], sent = [], toasts = []\<rparr>"

subsection \<open>Effects keyed on \<open>isAuthenticated\<close>\<close>

text \<open>
  The three effects with dependency list \<open>[isAuthenticated]\<close> run after mount and after
  every change of the flag. When it is true they fetch the playlist info, fetch now-playing
  and the queue once and start the 2000 ms and 3000 ms pollers; when it is false they do
  nothing, and the cleanups of an earlier run have cleared its intervals.
\<close>

definition auth_effects :: "guest_page \<Rightarrow> guest_page" where
  "auth_effects st =
     (if isAuthenticated st
      then st\<lparr>sent := sent st @ [Get getPlaylistInfo, Get getNowPlaying, Get getQueue],
              intervals := [(getNowPlaying, 2000), (getQueue, 3000)]\<rparr>
      else st\<lparr>intervals := []\<rparr>)"

definition mount :: "guest_page \<Rightarrow> guest_page" where
  "mount st = auth_effects (st\<lparr>sent := sent st @ [Get checkAuth]\<rparr>)"

definition checkAuth_settled :: "bool settled \<Rightarrow> guest_page \<Rightarrow> guest_page" where
  "checkAuth_settled r st =
     (case r of
        Resolved b \<Rightarrow> if b = isAuthenticated st then st else auth_effects (st\<lparr>isAuthenticated := b\<rparr>)
      | Rejected _ \<Rightarrow> st)"

subsection \<open>Polling\<close>

definition interval_fires :: "endpoint \<Rightarrow> guest_page \<Rightarrow> guest_page" where
  "interval_fires ep st =
     (if ep \<in> fst ` set (intervals st) then st\<lparr>sent := sent st @ [Get ep]\<rparr> else st)"

text \<open>\<open>fetchNowPlaying\<close> after its await: \<open>setNowPlaying(response.data)\<close>, or only a
  \<open>console.error\<close> in the catch block.\<close>

definition fetchNowPlaying_settled :: "now_playing option settled \<Rightarrow> guest_page \<Rightarrow> guest_page" where
  "fetchNowPlaying_settled r st =
     (case r of Resolved d \<Rightarrow> st\<lparr>nowPlaying := d\<rparr> | Rejected _ \<Rightarrow> st)"

text \<open>\<open>fetchQueue\<close> after its await: \<open>setQueue(response.data.queue || [])\<close>.\<close>

definition fetchQueue_settled :: "track list option settled \<Rightarrow> guest_page \<Rightarrow> guest_page" where
  "fetchQueue_settled r st =
     (case r of
        Resolved q \<Rightarrow> st\<lparr>queue := (case q of Some ts \<Rightarrow> ts | None \<Rightarrow> [])\<rparr>
      | Rejected _ \<Rightarrow> st)"

subsection \<open>\<open>addTrack\<close> and its duplicate-click guard\<close>

text \<open>
  The synchronous part of \<open>addTrack(track)\<close>, up to the await: return at once when the uri
  is in \<open>addingRef\<close> (before the \<open>try\<close>, so the \<open>finally\<close> block does not run); otherwise
  record the uri, mark the track as being added and post the request.
\<close>

definition addTrack :: "track \<Rightarrow> guest_page \<Rightarrow> guest_page" where
  "addTrack t st =
     (if uri t \<in> addingRef st then st
      else st\<lparr>addingRef := insert (uri t) (addingRef st),
              addingTrack := Some (uri t),
              awaited := awaited st @ [t],
              sent := sent st @ [Post addTrackEP (track_body t)]\<rparr>)"

definition errorMsg :: "string option \<Rightarrow> string" where
  "errorMsg detail =
     (case detail of
        Some d \<Rightarrow> if d = [] then ''Failed to add track'' else d
      | None \<Rightarrow> ''Failed to add track'')"

text \<open>
  The rest of \<open>addTrack\<close>, run when the awaited post settles. On success the overlay data is
  set (\<open>response.data.position || 0\<close>) and the search is cleared; on failure a toast shows
  the error. The \<open>finally\<close> block then clears \<open>addingTrack\<close> and schedules, 2000 ms from
  now, the callback that deletes the uri from \<open>addingRef\<close>. An exception thrown inside
  the \<open>try\<close> block takes the same path as a rejection without detail. A settlement for a
  request that is not awaited cannot happen and changes nothing.
\<close>

definition addTrack_settled :: "track \<Rightarrow> nat option settled \<Rightarrow> guest_page \<Rightarrow> guest_page" where
  "addTrack_settled t r st =
     (if t \<notin> set (awaited st) then st
      else
        let st1 = (case r of
                     Resolved p \<Rightarrow>
                       st\<lparr>successData :=
                            Some \<lparr>trackName = name t, sd_artist = artist t,
                                  position = (case p of Some n \<Rightarrow> n | None \<Rightarrow> 0)\<rparr>,
                          searchQuery := [], searchResults := []\<rparr>
                   | Rejected detail \<Rightarrow> st\<lparr>toasts := toasts st @ [errorMsg detail]\<rparr>)
        in st1\<lparr>addingTrack := None,
               awaited := remove1 t (awaited st1),
               timeouts := timeouts st1 @ [(clock st1 + 2000, uri t)]\<rparr>)"

text \<open>Time passing, and a pending timeout running: the browser runs a callback no earlier
  than its due time; the callback is \<open>addingRef.current.delete(track.uri)\<close>.\<close>

definition elapse :: "nat \<Rightarrow> guest_page \<Rightarrow> guest_page" where
  "elapse d st = st\<lparr>clock := clock st + d\<rparr>"

definition timeout_fires :: "nat \<times> string \<Rightarrow> guest_page \<Rightarrow> guest_page" where
  "timeout_fires tm st =
     (if tm \<in> set (timeouts st) \<and> fst tm \<le> clock st
      then st\<lparr>timeouts := remove1 tm (timeouts st), addingRef := addingRef st - {snd tm}\<rparr>
      else st)"

subsection \<open>The events of a mounted page\<close>

text \<open>
  What can happen to the page after mount, as far as the connection gate, the two pollers
  and \<open>addTrack\<close> are concerned: an awaited call settles, an interval or a timeout fires,
  the guest clicks an add button, time passes. The search box with its 300 ms debounce and
  the playlist header are left out; they touch none of the state below.
\<close>

datatype guest_event =
    CheckAuthSettled "bool settled"
  | IntervalFires endpoint
  | NowPlayingSettled "now_playing option settled"
  | QueueSettled "track list option settled"
  | AddTrackClicked track
  | AddTrackSettled track "nat option settled"
  | Elapse nat
  | TimeoutFires "nat \<times> string"

fun step :: "guest_event \<Rightarrow> guest_page \<Rightarrow> guest_page" where
  "step (CheckAuthSettled r) st = checkAuth_settled r st"
| "step (IntervalFires ep) st = interval_fires ep st"
| "step (NowPlayingSettled r) st = fetchNowPlaying_settled r st"
| "step (QueueSettled r) st = fetchQueue_settled r st"
| "step (AddTrackClicked t) st = addTrack t st"
| "step (AddTrackSettled t r) st = addTrack_settled t r st"
| "step (Elapse d) st = elapse d st"
| "step (TimeoutFires tm) st = timeout_fires tm st"

fun run :: "guest_event list \<Rightarrow> guest_page \<Rightarrow> guest_page" where
  "run [] st = st"
| "run (e # es) st = run es (step e st)"

subsection \<open>What the page renders\<close>

datatype now_playing_card = NowPlayingCard now_playing | PlaybackPaused | NothingPlaying

datatype guest_view =
    WaitingForConnection
  | PlaybackView now_playing_card "track list" "track list"

definition render_card :: "now_playing option \<Rightarrow> now_playing_card" where
  "render_card np =
     (case np of
        None \<Rightarrow> NothingPlaying
      | Some d \<Rightarrow>
          if is_playing d \<and> song_name d \<noteq> [] then NowPlayingCard d
          else if \<not> is_playing d then PlaybackPaused else NothingPlaying)"

definition GuestPage :: "guest_page \<Rightarrow> guest_view" where
  "GuestPage st =
     (if \<not> isAuthenticated st then WaitingForConnection
      else PlaybackView (render_card (nowPlaying st)) (searchResults st) (queue st))"

text \<open>The add button of a search result: \<open>disabled={isDisabled || isAdding}\<close> with
  \<open>isDisabled = track.in_cooldown || track.recently_added\<close>.\<close>

definition add_button_disabled :: "guest_page \<Rightarrow> track \<Rightarrow> bool" where
  "add_button_disabled st t \<longleftrightarrow>
     (in_cooldown t \<or> recently_added t) \<or> addingTrack st = Some (uri t)"

text \<open>Over the pending timeouts and awaited requests: every uri with an add request in
  flight or a deletion scheduled is in \<open>addingRef\<close>, and no uri has two of them.\<close>

definition guard_inv :: "guest_page \<Rightarrow> bool" where
  "guard_inv st \<longleftrightarrow>
     uri ` set (awaited st) \<subseteq> addingRef st \<and> snd ` set (timeouts st) \<subseteq> addingRef st \<and>
     distinct (map uri (awaited st) @ map snd (timeouts st))"

text \<open>A page that has never been told it is connected: no poller, and no playback read sent.\<close>

definition disconnected :: "guest_page \<Rightarrow> bool" where
  "disconnected st \<longleftrightarrow>
     \<not> isAuthenticated st \<and> intervals st = [] \<and>
     Get getNowPlaying \<notin> set (sent st) \<and> Get getQueue \<notin> set (sent st)"

section \<open>The paid actions of the guest page in frontend/src/App.js\<close>

text \<open>
  The browser as \<open>skipQueue\<close> and \<open>moveToNext\<close> see it: the backend address
  (\<open>process.env.REACT_APP_BACKEND_URL\<close>), the payment link loaded from \<open>/config\<close>, the tabs
  opened with \<open>window.open\<close>, the requests posted and the toasts shown. Whether the guest
  completes the payment in the opened tab is a fact of the world the page has no handle on
  (the value returned by \<open>window.open\<close> is discarded); it is kept as a field so that
  statements can vary it.
\<close>

record browser =
  BACKEND_URL :: string
  squareLink :: string
  windows :: "string list"
  payment_completed :: bool
  posted :: "string http_request list"
  shown :: "string list"

definition API :: "browser \<Rightarrow> string" where
  "API w = BACKEND_URL w @ ''/api''"

text \<open>\<open>skipQueue(track)\<close> up to its await: open the payment link, then post the priority
  request.\<close>

definition skipQueue :: "track \<Rightarrow> browser \<Rightarrow> browser" where
  "skipQueue t w =
     (let w1 = w\<lparr>windows := windows w @ [squareLink w]\<rparr>
      in w1\<lparr>posted := posted w1 @ [Post (API w1 @ ''/spotify/skip-paid'') (track_body t)]\<rparr>)"

text \<open>\<open>moveToNext(track)\<close> up to its await: the same two steps, posting to
  \<open>/spotify/move-to-next\<close>.\<close>

definition moveToNext :: "track \<Rightarrow> browser \<Rightarrow> browser" where
  "moveToNext t w =
     (let w1 = w\<lparr>windows := windows w @ [squareLink w]\<rparr>
      in w1\<lparr>posted := posted w1 @ [Post (API w1 @ ''/spotify/move-to-next'') (track_body t)]\<rparr>)"

text \<open>After the await, both only show a toast: \<open>response.data.message || "Track will play
  next!"\<close> on success, \<open>e.response?.data?.detail || fallback\<close> on failure.\<close>

definition paid_settled :: "string \<Rightarrow> string option settled \<Rightarrow> browser \<Rightarrow> browser" where
  "paid_settled fallback r w =
     (case r of
        Resolved m \<Rightarrow>
          w\<lparr>shown := shown w @
                [case m of Some s \<Rightarrow> if s = [] then ''Track will play next!'' else s
                 | None \<Rightarrow> ''Track will play next!'']\<rparr>
      | Rejected detail \<Rightarrow>
          w\<lparr>shown := shown w @
                [case detail of Some d \<Rightarrow> if d = [] then fallback else d | None \<Rightarrow> fallback]\<rparr>)"

section \<open>The admin page (frontend/src/App.js)\<close>

text \<open>
  \<open>new URLSearchParams(window.location.search)\<close> is the browser's parse of the query string:
  a list of name/value pairs, of which \<open>get(name)\<close> returns the first value with that
  name, or null.
\<close>

type_synonym url_search_params = "(string \<times> string) list"

definition params_get :: "url_search_params \<Rightarrow> string \<Rightarrow> string option" where
  "params_get params k = map_of params k"

record admin_page =
  admin_isAuthenticated :: bool
  loading :: bool
  status_awaited :: bool
  admin_sent :: "string http_request list"
  admin_toasts :: "string list"

definition initial_admin :: admin_page where
  "initial_admin =
     \<lparr>admin_isAuthenticated = False, loading = True, status_awaited = False,
      admin_sent = [], admin_toasts = []\<rparr>"

text \<open>The mount effect of \<open>AdminPage\<close>: with \<open>auth=success\<close> in the URL the flags are set
  directly; otherwise \<open>checkAuth()\<close> asks \<open>/spotify/status\<close>.\<close>

definition AdminPage_mount :: "string \<Rightarrow> url_search_params \<Rightarrow> admin_page \<Rightarrow> admin_page" where
  "AdminPage_mount api params st =
     (if params_get params ''auth'' = Some ''success''
      then st\<lparr>admin_isAuthenticated := True, loading := False\<rparr>
      else st\<lparr>status_awaited := True,
              admin_sent := admin_sent st @ [Get (api @ ''/spotify/status'')]\<rparr>)"

datatype admin_event =
    StatusSettled "bool settled"
  | ResetQueueClicked
  | ResetQueueSettled "unit settled"

text \<open>\<open>checkAuth\<close> after its await (a settlement with no request awaited cannot happen),
  and \<open>handleResetQueue\<close> before and after its await.\<close>

fun admin_step :: "string \<Rightarrow> admin_event \<Rightarrow> admin_page \<Rightarrow> admin_page" where
  "admin_step api (StatusSettled r) st =
     (if \<not> status_awaited st then st
      else case r of
             Resolved b \<Rightarrow> st\<lparr>admin_isAuthenticated := b, loading := False, status_awaited := False\<rparr>
           | Rejected _ \<Rightarrow> st\<lparr>loading := False, status_awaited := False\<rparr>)"
| "admin_step api ResetQueueClicked st =
     st\<lparr>admin_sent := admin_sent st @ [Post (api @ ''/admin/reset-queue-state'') []]\<rparr>"
| "admin_step api (ResetQueueSettled r) st =
     (case r of
        Resolved _ \<Rightarrow> st\<lparr>admin_toasts := admin_toasts st @ [''Queue state reset!'']\<rparr>
      | Rejected _ \<Rightarrow> st\<lparr>admin_toasts := admin_toasts st @ [''Failed to reset queue state'']\<rparr>)"

fun admin_run :: "string \<Rightarrow> admin_event list \<Rightarrow> admin_page \<Rightarrow> admin_page" where
  "admin_run api [] st = st"
| "admin_run api (e # es) st = admin_run api es (admin_step api e st)"

datatype admin_view = LoadingView | ConnectedView | ConnectPrompt

definition AdminPage :: "admin_page \<Rightarrow> admin_view" where
  "AdminPage st =
     (if loading st then LoadingView
      else if admin_isAuthenticated st then ConnectedView else ConnectPrompt)"

text \<open>An admin page that took \<open>auth=success\<close> from the URL: authenticated, not loading,
  and with no status request sent or awaited.\<close>

definition connected :: "string \<Rightarrow> admin_page \<Rightarrow> bool" where
  "connected api st \<longleftrightarrow>
     admin_isAuthenticated st \<and> \<not> loading st \<and> \<not> status_awaited st \<and>
     Get (api @ ''/spotify/status'') \<notin> set (admin_sent st)"

section \<open>The request queue engine behind the endpoints\<close>

text \<open>
  The pages above only call the server; the server itself is not among the sources.
  Its queue engine, cooldown tracker and in-flight guard are written down here from the
  specification (sections 3, 4.2 and 4.3), one definition per operation.
\<close>

text \<open>Modelled from the spec: the error taxonomy of section 7 (the server's failure
  values are missing from the sources).\<close>

datatype error =
    DuplicateInFlight | InCooldown | UpstreamRejected | UpstreamTimeout | NotFound
  | Unauthenticated

text \<open>Modelled from the spec: the three outcomes of a call into the missing UpstreamClient:
  acknowledged, declined, or no answer within the bounded timeout.\<close>

datatype upstream_outcome = Acknowledged | Declined | TimedOut

text \<open>Modelled from the spec: the externally supplied durations of section 6 (cooldown
  window and in-flight guard duration), in the unit of the timestamps.\<close>

record config =
  cooldown_window :: int
  guard_window :: int

text \<open>Modelled from the spec: QueueEntry of section 3 (the server's entry type is missing
  from the sources). Position is not a field: it is the index in the ordered queue.\<close>

record queue_entry =
  track :: track
  is_guest_request :: bool
  is_priority :: bool
  submitted_at :: int
  submitted_by :: "string option"

text \<open>Modelled from the spec: the state owned by the missing RequestQueueEngine and
  CooldownTracker: the ordered queue, the InFlightGuard (each uri with the time it was
  entered, so that an entry expires after the guard window) and the CooldownRecords
  (at most one \<open>last_played_at\<close> per uri).\<close>

record engine =
  entries :: "queue_entry list"
  in_flight :: "string \<Rightarrow> int option"
  cooldowns :: "string \<Rightarrow> int option"

text \<open>Modelled from the spec: the engine before any request (missing constructor).\<close>

definition initial_engine :: engine where
  "initial_engine = \<lparr>entries = [], in_flight = (\<lambda>u. None), cooldowns = (\<lambda>u. None)\<rparr>"

text \<open>Modelled from the spec: CooldownTracker.on_track_change (missing), which upserts the
  record of the uri.\<close>

definition on_track_change :: "string \<Rightarrow> int \<Rightarrow> engine \<Rightarrow> engine" where
  "on_track_change u at st = st\<lparr>cooldowns := (cooldowns st)(u := Some at)\<rparr>"

text \<open>Modelled from the spec: CooldownTracker.remaining (missing):
  \<open>max(0, cooldown_window - (now - last_played_at))\<close>, or zero if no record exists.\<close>

definition remaining :: "config \<Rightarrow> engine \<Rightarrow> string \<Rightarrow> int \<Rightarrow> int" where
  "remaining cfg st u now =
     (case cooldowns st u of
        None \<Rightarrow> 0
      | Some last_played_at \<Rightarrow> max 0 (cooldown_window cfg - (now - last_played_at)))"

text \<open>Modelled from the spec: CooldownTracker.is_in_cooldown (missing): \<open>remaining(...) > 0\<close>.\<close>

definition is_in_cooldown :: "config \<Rightarrow> engine \<Rightarrow> string \<Rightarrow> int \<Rightarrow> bool" where
  "is_in_cooldown cfg st u now \<longleftrightarrow> 0 < remaining cfg st u now"

text \<open>Modelled from the spec: membership in the missing InFlightGuard; an entry counts
  until the guard window after its insertion has passed.\<close>

definition in_flight_guard :: "config \<Rightarrow> engine \<Rightarrow> string \<Rightarrow> int \<Rightarrow> bool" where
  "in_flight_guard cfg st u now =
     (case in_flight st u of None \<Rightarrow> False | Some entered \<Rightarrow> now < entered + guard_window cfg)"

text \<open>Modelled from the spec: the entry a successful add creates (missing).\<close>

definition new_entry :: "track \<Rightarrow> string option \<Rightarrow> int \<Rightarrow> bool \<Rightarrow> queue_entry" where
  "new_entry t who now prio =
     \<lparr>track = t, is_guest_request = True, is_priority = prio, submitted_at = now,
      submitted_by = who\<rparr>"

text \<open>Modelled from the spec: insertion at an index of the ordered queue (missing).\<close>

definition insert_at :: "nat \<Rightarrow> queue_entry \<Rightarrow> queue_entry list \<Rightarrow> queue_entry list" where
  "insert_at i e es = take i es @ [e] @ drop i es"

text \<open>Modelled from the spec: where \<open>add_free\<close> puts its entry (missing): "appends after
  the last non-priority entry"; with no non-priority entry it is appended at the end.\<close>

definition free_slot :: "queue_entry list \<Rightarrow> nat" where
  "free_slot es =
     (if list_all is_priority es then length es
      else length es - length (takeWhile is_priority (rev es)))"

text \<open>Modelled from the spec: where \<open>add_priority\<close> puts its entry (missing): "after any
  earlier priority entries, before all free entries", the index of the first free entry.\<close>

definition priority_slot :: "queue_entry list \<Rightarrow> nat" where
  "priority_slot es = length (takeWhile is_priority es)"

text \<open>Modelled from the spec: the checks, write-through and insertion shared by the missing
  \<open>add_free\<close> and \<open>add_priority\<close>: DuplicateInFlight if the uri is in the
  InFlightGuard; InCooldown if the tracker says so; else the uri enters the guard and the
  upstream is called. The spec names the two checks without saying which failure is
  reported when both apply; they are tested here in the order of its sentence. On upstream
  success the entry is created at its slot
  and the 1-based position returned; on upstream failure the guard entry is removed and the
  call fails (UpstreamRejected, or UpstreamTimeout when no answer came).\<close>

definition admit ::
  "config \<Rightarrow> bool \<Rightarrow> track \<Rightarrow> string option \<Rightarrow> int \<Rightarrow> upstream_outcome \<Rightarrow> engine \<Rightarrow>
   (error + nat) \<times> engine" where
  "admit cfg prio t who now up st =
     (if in_flight_guard cfg st (uri t) now then (Inl DuplicateInFlight, st)
      else if is_in_cooldown cfg st (uri t) now then (Inl InCooldown, st)
      else
        let st1 = st\<lparr>in_flight := (in_flight st)(uri t := Some now)\<rparr> in
        case up of
          Acknowledged \<Rightarrow>
            let i = (if prio then priority_slot (entries st1) else free_slot (entries st1))
            in (Inr (i + 1),
                st1\<lparr>entries := insert_at i (new_entry t who now prio) (entries st1)\<rparr>)
        | Declined \<Rightarrow> (Inl UpstreamRejected, st1\<lparr>in_flight := (in_flight st1)(uri t := None)\<rparr>)
        | TimedOut \<Rightarrow> (Inl UpstreamTimeout, st1\<lparr>in_flight := (in_flight st1)(uri t := None)\<rparr>))"

text \<open>Modelled from the spec: RequestQueueEngine.add_free (missing).\<close>

definition add_free ::
  "config \<Rightarrow> track \<Rightarrow> string option \<Rightarrow> int \<Rightarrow> upstream_outcome \<Rightarrow> engine \<Rightarrow>
   (error + nat) \<times> engine" where
  "add_free cfg t who now up st = admit cfg False t who now up st"

text \<open>Modelled from the spec: RequestQueueEngine.add_priority (missing): "same
  guard/cooldown checks", entry created with \<open>is_priority = true\<close>.\<close>

definition add_priority ::
  "config \<Rightarrow> track \<Rightarrow> string option \<Rightarrow> int \<Rightarrow> upstream_outcome \<Rightarrow> engine \<Rightarrow>
   (error + nat) \<times> engine" where
  "add_priority cfg t who now up st = admit cfg True t who now up st"

text \<open>Modelled from the spec: RequestQueueEngine.promote_existing (missing): the tracked
  entry of the uri is reclassified \<open>is_priority = true\<close> and relocated to index 0; NotFound
  if the uri is not currently a tracked entry.\<close>

definition promote_existing :: "string \<Rightarrow> engine \<Rightarrow> (error + bool) \<times> engine" where
  "promote_existing u st =
     (case List.find (\<lambda>e. uri (track e) = u) (entries st) of
        None \<Rightarrow> (Inl NotFound, st)
      | Some e \<Rightarrow>
          (Inr True, st\<lparr>entries := e\<lparr>is_priority := True\<rparr> # remove1 e (entries st)\<rparr>))"

text \<open>Modelled from the spec: RequestQueueEngine.list (missing): the ordered queue of
  tracked entries, read-only. Entries the upstream queue holds on its own account are not
  part of the engine's state.\<close>

definition list_entries :: "engine \<Rightarrow> queue_entry list" where
  "list_entries st = entries st"

text \<open>Modelled from the spec: RequestQueueEngine.reset (missing): "clears all tracked
  QueueEntry state and InFlightGuard (but never clears CooldownRecords)".\<close>

definition reset :: "engine \<Rightarrow> engine" where
  "reset st = st\<lparr>entries := [], in_flight := (\<lambda>u. None)\<rparr>"

text \<open>Modelled from the spec: the mutating calls of section 6 as values, and the engine
  serving a sequence of them one after the other (writes are serialised, section 5).\<close>

datatype request =
    AddFree track "string option" int upstream_outcome
  | AddPriority track "string option" int upstream_outcome
  | PromoteExisting string

text \<open>Modelled from the spec: the state after one call.\<close>

fun serve1 :: "config \<Rightarrow> request \<Rightarrow> engine \<Rightarrow> engine" where
  "serve1 cfg (AddFree t who now up) st = snd (add_free cfg t who now up st)"
| "serve1 cfg (AddPriority t who now up) st = snd (add_priority cfg t who now up st)"
| "serve1 cfg (PromoteExisting u) st = snd (promote_existing u st)"

text \<open>Modelled from the spec: the state after a sequence of calls.\<close>

fun serve :: "config \<Rightarrow> request list \<Rightarrow> engine \<Rightarrow> engine" where
  "serve cfg [] st = st"
| "serve cfg (r # rs) st = serve cfg rs (serve1 cfg r st)"

text \<open>Modelled from the spec: the entry a call creates when it succeeds, none when it
  fails or is a promotion.\<close>

fun created :: "config \<Rightarrow> request \<Rightarrow> engine \<Rightarrow> queue_entry list" where
  "created cfg (AddFree t who now up) st =
     (case fst (add_free cfg t who now up st) of
        Inr _ \<Rightarrow> [new_entry t who now False] | Inl _ \<Rightarrow> [])"
| "created cfg (AddPriority t who now up) st =
     (case fst (add_priority cfg t who now up st) of
        Inr _ \<Rightarrow> [new_entry t who now True] | Inl _ \<Rightarrow> [])"
| "created cfg (PromoteExisting u) st = []"

text \<open>Modelled from the spec: the entries a sequence of calls creates, in submission
  order.\<close>

fun submitted :: "config \<Rightarrow> request list \<Rightarrow> engine \<Rightarrow> queue_entry list" where
  "submitted cfg [] st = []"
| "submitted cfg (r # rs) st = created cfg r st @ submitted cfg rs (serve1 cfg r st)"

fun is_add :: "request \<Rightarrow> bool" where
  "is_add (PromoteExisting u) = False"
| "is_add _ = True"

text \<open>Priority entries first: no entry follows a free entry unless it is free itself.\<close>

fun partitioned :: "queue_entry list \<Rightarrow> bool" where
  "partitioned [] = True"
| "partitioned (e # es) =
     ((is_priority e \<or> list_all (\<lambda>x. \<not> is_priority x) es) \<and> partitioned es)"

section \<open>Example data\<close>

text \<open>Two tracks; a one-hour cooldown and a two-second guard, in milliseconds.\<close>

definition demo_track :: track where
  "demo_track = \<lparr>uri = ''spotify:track:1'', name = ''Song'', artist = ''Band'',
     album_art = None, in_cooldown = False, recently_added = False\<rparr>"

definition demo_config :: config where
  "demo_config = \<lparr>cooldown_window = 3600000, guard_window = 2000\<rparr>"

definition other_track :: track where
  "other_track = \<lparr>uri = ''spotify:track:2'', name = ''Tune'', artist = ''Duo'',
     album_art = None, in_cooldown = False, recently_added = False\<rparr>"

text \<open>Four calls, the third inside the guard window of the first.\<close>

definition demo_requests :: "request list" where
  "demo_requests =
     [AddFree demo_track None 0 Acknowledged,
      AddPriority other_track None 10 Acknowledged,
      AddFree demo_track None 20 Acknowledged,
      AddPriority demo_track None 5000 Acknowledged]"

text \<open>The first track submitted at time 0 and starting to play at time 1000.\<close>

definition busy_engine :: engine where
  "busy_engine =
     on_track_change (uri demo_track) 1000
       (snd (add_free demo_config demo_track None 0 Acknowledged initial_engine))"

text \<open>A queue with a priority entry ahead of a free one.\<close>

definition demo_queue :: engine where
  "demo_queue =
     initial_engine\<lparr>entries :=
       [new_entry other_track None 10 True, new_entry demo_track None 0 False]\<rparr>"

section \<open>The guest page: the duplicate-click guard, polling and the connection gate\<close>

lemma clock_step_mono: "clock st \<le> clock (step e st)"
  by (cases e)
     (auto simp: checkAuth_settled_def auth_effects_def interval_fires_def
        fetchNowPlaying_settled_def fetchQueue_settled_def addTrack_def addTrack_settled_def
        elapse_def timeout_fires_def Let_def split: settled.splits)

lemma clock_run_mono: "clock st \<le> clock (run es st)"
proof (induction es arbitrary: st)
  case Nil show ?case by simp
next
  case (Cons e es)
  have "clock st \<le> clock (step e st)" by (rule clock_step_mono)
  also have "\<dots> \<le> clock (run es (step e st))" by (rule Cons.IH)
  finally show ?case by simp
qed

lemma guard_inv_initial: "guard_inv (mount initial_page)"
  by (simp add: guard_inv_def mount_def auth_effects_def initial_page_def)

lemma distinct_map_remove1: "distinct (map f xs) \<Longrightarrow> distinct (map f (remove1 x xs))"
  by (induction xs) (auto dest: set_remove1_subset[THEN subsetD])

lemma map_remove1_notin:
  "distinct (map f xs) \<Longrightarrow> x \<in> set xs \<Longrightarrow> f x \<notin> f ` set (remove1 x xs)"
  by (induction xs) (auto simp: image_iff dest: set_remove1_subset[THEN subsetD])

lemma settled_fields:
  assumes "t \<in> set (awaited st)"
  shows "awaited (addTrack_settled t r st) = remove1 t (awaited st)"
    and "timeouts (addTrack_settled t r st) = timeouts st @ [(clock st + 2000, uri t)]"
    and "addingRef (addTrack_settled t r st) = addingRef st"
    and "clock (addTrack_settled t r st) = clock st"
    and "sent (addTrack_settled t r st) = sent st"
  using assms by (simp_all add: addTrack_settled_def Let_def split: settled.splits)

lemma guard_inv_step: "guard_inv st \<Longrightarrow> guard_inv (step e st)"
proof (cases e)
  case (AddTrackClicked t)
  assume "guard_inv st"
  then show ?thesis using AddTrackClicked
    by (auto simp: guard_inv_def addTrack_def)
next
  case (AddTrackSettled t r)
  assume inv: "guard_inv st"
  show ?thesis
  proof (cases "t \<in> set (awaited st)")
    case False
    then show ?thesis using inv AddTrackSettled by (simp add: addTrack_settled_def)
  next
    case True
    have d: "distinct (map uri (awaited st))" using inv by (simp add: guard_inv_def)
    have 1: "uri t \<notin> uri ` set (remove1 t (awaited st))"
      using map_remove1_notin[OF d True] .
    have 2: "distinct (map uri (remove1 t (awaited st)))"
      using distinct_map_remove1[OF d] .
    have 3: "set (remove1 t (awaited st)) \<subseteq> set (awaited st)" by (rule set_remove1_subset)
    have dj: "uri ` set (awaited st) \<inter> snd ` set (timeouts st) = {}"
      and sub: "uri ` set (awaited st) \<subseteq> addingRef st"
      using inv by (simp_all add: guard_inv_def)
    have 4: "uri ` set (remove1 t (awaited st)) \<inter> snd ` set (timeouts st) = {}"
      using dj 3 by blast
    have 5: "uri t \<notin> snd ` set (timeouts st)"
      using dj True by blast
    have 6: "uri t \<in> addingRef st" using sub True by blast
    have 7: "uri ` set (remove1 t (awaited st)) \<subseteq> addingRef st"
      using sub 3 by blast
    have 8: "snd ` set (timeouts st) \<subseteq> addingRef st" "distinct (map snd (timeouts st))"
      using inv unfolding guard_inv_def by auto
    have f: "awaited (step e st) = remove1 t (awaited st)"
      "timeouts (step e st) = timeouts st @ [(clock st + 2000, uri t)]"
      "addingRef (step e st) = addingRef st"
      using True AddTrackSettled settled_fields by simp_all
    show ?thesis unfolding guard_inv_def f using 1 2 4 5 6 7 8 by simp
  qed
next
  case (TimeoutFires tm)
  assume inv: "guard_inv st"
  show ?thesis
  proof (cases "tm \<in> set (timeouts st) \<and> fst tm \<le> clock st")
    case False
    then show ?thesis using inv TimeoutFires by (auto simp: timeout_fires_def)
  next
    case True
    have d: "distinct (map snd (timeouts st))" using inv by (simp add: guard_inv_def)
    have 1: "snd tm \<notin> snd ` set (remove1 tm (timeouts st))"
      using map_remove1_notin[OF d] True by blast
    have 2: "distinct (map snd (remove1 tm (timeouts st)))"
      using distinct_map_remove1[OF d] .
    have 3: "set (remove1 tm (timeouts st)) \<subseteq> set (timeouts st)" by (rule set_remove1_subset)
    have dj: "uri ` set (awaited st) \<inter> snd ` set (timeouts st) = {}"
      and sub: "uri ` set (awaited st) \<subseteq> addingRef st"
      and sub2: "snd ` set (timeouts st) \<subseteq> addingRef st"
      and da: "distinct (map uri (awaited st))"
      using inv by (simp_all add: guard_inv_def)
    have 4: "snd tm \<notin> uri ` set (awaited st)" using dj True by blast
    have 5: "uri ` set (awaited st) \<subseteq> addingRef st - {snd tm}" using sub 4 by blast
    have 6: "snd ` set (remove1 tm (timeouts st)) \<subseteq> addingRef st - {snd tm}"
      using sub2 1 3 by blast
    have 7: "uri ` set (awaited st) \<inter> snd ` set (remove1 tm (timeouts st)) = {}"
      using dj 3 by blast
    have f: "awaited (step e st) = awaited st"
      "timeouts (step e st) = remove1 tm (timeouts st)"
      "addingRef (step e st) = addingRef st - {snd tm}"
      using True TimeoutFires by (simp_all add: timeout_fires_def)
    show ?thesis unfolding guard_inv_def f using 2 5 6 7 da by simp
  qed
qed (auto simp: guard_inv_def checkAuth_settled_def auth_effects_def interval_fires_def
        fetchNowPlaying_settled_def fetchQueue_settled_def elapse_def split: settled.splits)

lemma guard_inv_run: "guard_inv st \<Longrightarrow> guard_inv (run es st)"
proof (induction es arbitrary: st)
  case Nil
  then show ?case by simp
next
  case (Cons e es)
  from Cons.prems have "guard_inv (step e st)" by (rule guard_inv_step)
  then show ?case using Cons.IH by simp
qed

lemma held_until_due:
  "guard_inv st \<Longrightarrow> (due, u) \<in> set (timeouts st) \<Longrightarrow> clock (run es st) < due \<Longrightarrow>
   u \<in> addingRef (run es st) \<and> (due, u) \<in> set (timeouts (run es st))"
proof (induction es arbitrary: st)
  case Nil
  then show ?case by (auto simp: guard_inv_def)
next
  case (Cons e es)
  have c: "clock (step e st) < due"
    using clock_run_mono[of "step e st" es] Cons.prems(3) by simp
  then have c0: "clock st < due" using clock_step_mono[of st e] by simp
  have "(due, u) \<in> set (timeouts (step e st))"
  proof (cases e)
    case (TimeoutFires tm)
    show ?thesis
    proof (cases "tm = (due, u)")
      case True
      then show ?thesis using TimeoutFires c0 Cons.prems(2) by (simp add: timeout_fires_def)
    next
      case False
      then show ?thesis using TimeoutFires Cons.prems(2) by (auto simp: timeout_fires_def)
    qed
  qed (use Cons.prems(2) in \<open>auto simp: checkAuth_settled_def auth_effects_def interval_fires_def
        fetchNowPlaying_settled_def fetchQueue_settled_def addTrack_def addTrack_settled_def
        elapse_def Let_def split: settled.splits\<close>)
  moreover have "guard_inv (step e st)" using Cons.prems(1) by (rule guard_inv_step)
  ultimately show ?case using Cons.IH[of "step e st"] Cons.prems(3) by simp
qed

lemma run_append: "run (es @ es') st = run es' (run es st)"
  by (induction es arbitrary: st) auto

lemma timeout_stays_step:
  "e \<noteq> TimeoutFires tm \<Longrightarrow> tm \<in> set (timeouts st) \<Longrightarrow> tm \<in> set (timeouts (step e st))"
proof (cases e)
  case (TimeoutFires tm')
  assume "e \<noteq> TimeoutFires tm" "tm \<in> set (timeouts st)"
  then show ?thesis using TimeoutFires by (simp add: timeout_fires_def)
next
  case (AddTrackSettled t r)
  assume "tm \<in> set (timeouts st)"
  then show ?thesis using AddTrackSettled settled_fields(2)[of t st r]
    by (cases "t \<in> set (awaited st)") (simp_all add: addTrack_settled_def)
qed (simp_all add: checkAuth_settled_def auth_effects_def interval_fires_def
        fetchNowPlaying_settled_def fetchQueue_settled_def addTrack_def
        elapse_def split: settled.splits)

lemma timeout_stays_run:
  "TimeoutFires tm \<notin> set es \<Longrightarrow> tm \<in> set (timeouts st) \<Longrightarrow> tm \<in> set (timeouts (run es st))"
proof (induction es arbitrary: st)
  case Nil
  then show ?case by simp
next
  case (Cons e es)
  have "e \<noteq> TimeoutFires tm" using Cons.prems(1) by auto
  then have "tm \<in> set (timeouts (step e st))"
    using Cons.prems(2) by (rule timeout_stays_step)
  moreover have "TimeoutFires tm \<notin> set es" using Cons.prems(1) by simp
  ultimately show ?case using Cons.IH by simp
qed

text \<open>
  C3. When an awaited add request settles, resolved or rejected alike, the uri stays in
  \<open>addingRef\<close> and its deletion is scheduled 2000 ms later. Until the clock reaches that
  time the uri is still held and another \<open>addTrack\<close> for it does nothing; the deletion
  stays scheduled until it runs; and once it runs the uri is gone and \<open>addTrack\<close> posts
  a request for the track again.
\<close>

theorem addTrack_guard_released_after_delay:
  assumes reach: "st = run es (mount initial_page)"
    and pending: "t \<in> set (awaited st)"
    and st1: "st1 = addTrack_settled t r st"
    and due: "due = clock st + 2000"
  shows "uri t \<in> addingRef st1 \<and> (due, uri t) \<in> set (timeouts st1) \<and>
         (\<forall>es'. clock (run es' st1) < due \<longrightarrow>
                uri t \<in> addingRef (run es' st1) \<and> addTrack t (run es' st1) = run es' st1) \<and>
         (\<forall>es'. TimeoutFires (due, uri t) \<notin> set es' \<longrightarrow>
                (due, uri t) \<in> set (timeouts (run es' st1))) \<and>
         (\<forall>es'. (due, uri t) \<in> set (timeouts (run es' st1)) \<and> due \<le> clock (run es' st1) \<longrightarrow>
                uri t \<notin> addingRef (timeout_fires (due, uri t) (run es' st1)) \<and>
                sent (addTrack t (timeout_fires (due, uri t) (run es' st1))) =
                  sent (run es' st1) @ [Post addTrackEP (track_body t)])"
proof -
  have inv: "guard_inv st" unfolding reach by (rule guard_inv_run[OF guard_inv_initial])
  have inv1: "guard_inv st1"
    using guard_inv_step[OF inv, of "AddTrackSettled t r"] st1 by simp
  have tm: "(due, uri t) \<in> set (timeouts st1)"
    unfolding st1 due using settled_fields(2)[OF pending] by simp
  have sub: "snd ` set (timeouts st1) \<subseteq> addingRef st1"
    using inv1 by (simp add: guard_inv_def)
  have "snd (due, uri t) \<in> snd ` set (timeouts st1)" using tm by (rule imageI)
  then have held: "uri t \<in> addingRef st1" using sub by auto
  have a: "\<forall>es'. clock (run es' st1) < due \<longrightarrow>
             uri t \<in> addingRef (run es' st1) \<and> addTrack t (run es' st1) = run es' st1"
  proof (intro allI impI)
    fix es' assume c: "clock (run es' st1) < due"
    have "uri t \<in> addingRef (run es' st1)"
      using held_until_due[OF inv1 tm c] by (rule conjunct1)
    then show "uri t \<in> addingRef (run es' st1) \<and> addTrack t (run es' st1) = run es' st1"
      by (simp add: addTrack_def)
  qed
  have b: "\<forall>es'. TimeoutFires (due, uri t) \<notin> set es' \<longrightarrow>
             (due, uri t) \<in> set (timeouts (run es' st1))"
  proof (intro allI impI)
    fix es' assume "TimeoutFires (due, uri t) \<notin> set es'"
    then show "(due, uri t) \<in> set (timeouts (run es' st1))"
      using tm by (rule timeout_stays_run)
  qed
  have c: "\<forall>es'. (due, uri t) \<in> set (timeouts (run es' st1)) \<and> due \<le> clock (run es' st1) \<longrightarrow>
                uri t \<notin> addingRef (timeout_fires (due, uri t) (run es' st1)) \<and>
                sent (addTrack t (timeout_fires (due, uri t) (run es' st1))) =
                  sent (run es' st1) @ [Post addTrackEP (track_body t)]"
  proof (intro allI impI)
    fix es'
    assume h: "(due, uri t) \<in> set (timeouts (run es' st1)) \<and> due \<le> clock (run es' st1)"
    define s2 where "s2 = run es' st1"
    have f: "addingRef (timeout_fires (due, uri t) s2) = addingRef s2 - {uri t}"
      "sent (timeout_fires (due, uri t) s2) = sent s2"
      using h unfolding s2_def[symmetric] by (simp_all add: timeout_fires_def)
    have n: "uri t \<notin> addingRef (timeout_fires (due, uri t) s2)" unfolding f by simp
    have "sent (addTrack t (timeout_fires (due, uri t) s2)) =
            sent s2 @ [Post addTrackEP (track_body t)]"
      using n f(2) by (simp add: addTrack_def)
    then show "uri t \<notin> addingRef (timeout_fires (due, uri t) (run es' st1)) \<and>
                sent (addTrack t (timeout_fires (due, uri t) (run es' st1))) =
                  sent (run es' st1) @ [Post addTrackEP (track_body t)]"
      using n unfolding s2_def by simp
  qed
  show ?thesis using held tm a b c by (intro conjI)
qed

lemma demo_clicked:
  "run [AddTrackClicked demo_track] (mount initial_page) =
     initial_page\<lparr>addingTrack := Some (uri demo_track), addingRef := {uri demo_track},
        awaited := [demo_track],
        sent := [Get checkAuth, Post addTrackEP (track_body demo_track)]\<rparr>"
  by (simp add: addTrack_def mount_def auth_effects_def initial_page_def)

theorem addTrack_guard_released_after_delay_witness:
  "demo_track \<in> set (awaited (run [AddTrackClicked demo_track] (mount initial_page))) \<and>
   uri demo_track \<in> addingRef (addTrack_settled demo_track (Rejected None)
       (run [AddTrackClicked demo_track] (mount initial_page))) \<and>
   uri demo_track \<in> addingRef (run [Elapse 1999]
       (addTrack_settled demo_track (Rejected None)
          (run [AddTrackClicked demo_track] (mount initial_page)))) \<and>
   uri demo_track \<notin> addingRef (timeout_fires (2000, uri demo_track) (run [Elapse 2000]
       (addTrack_settled demo_track (Rejected None)
          (run [AddTrackClicked demo_track] (mount initial_page)))))"
proof -
  define st where "st = run [AddTrackClicked demo_track] (mount initial_page)"
  define st1 where "st1 = addTrack_settled demo_track (Rejected None) st"
  have p: "demo_track \<in> set (awaited st)"
    unfolding st_def demo_clicked by simp
  have c: "clock st = 0"
    unfolding st_def demo_clicked by (simp add: initial_page_def)
  have d: "(2000::nat) = clock st + 2000"
    unfolding c by simp
  note th = addTrack_guard_released_after_delay[OF st_def p st1_def d]
  have k: "clock st1 = 0"
    unfolding st1_def using settled_fields(4)[OF p] c by simp
  have c1: "clock (run [Elapse 1999] st1) < 2000"
    by (simp add: elapse_def k)
  have c2: "(2000::nat) \<le> clock (run [Elapse 2000] st1)"
    by (simp add: elapse_def k)
  have h1: "uri demo_track \<in> addingRef st1"
    using th by (rule conjunct1)
  have h2: "uri demo_track \<in> addingRef (run [Elapse 1999] st1)"
    using th[THEN conjunct2, THEN conjunct2, THEN conjunct1, rule_format, OF c1]
    by (rule conjunct1)
  have ne: "TimeoutFires (2000, uri demo_track) \<notin> set [Elapse 2000]"
    by simp
  have c3: "(2000, uri demo_track) \<in> set (timeouts (run [Elapse 2000] st1))"
    using th[THEN conjunct2, THEN conjunct2, THEN conjunct2, THEN conjunct1, rule_format,
             OF ne] .
  have h3: "uri demo_track \<notin> addingRef (timeout_fires (2000, uri demo_track)
              (run [Elapse 2000] st1))"
    using th[THEN conjunct2, THEN conjunct2, THEN conjunct2, THEN conjunct2, rule_format,
             OF conjI, OF c3 c2]
    by (rule conjunct1)
  show ?thesis using p h1 h2 h3 unfolding st1_def st_def by (intro conjI)
qed

text \<open>
  C7. When a now-playing poll fails, the stored snapshot is retained unchanged: after any
  history, a rejected poll leaves the whole page state as it was, so the snapshot read
  afterwards is the last one a successful poll committed, and the rendered view is the one
  rendered before the failure.
\<close>

theorem failed_poll_keeps_snapshot:
  "run (es @ [NowPlayingSettled (Rejected e)]) st = run es st \<and>
   nowPlaying (run (es @ [NowPlayingSettled (Resolved d), NowPlayingSettled (Rejected e)]) st) = d \<and>
   GuestPage (run (es @ [NowPlayingSettled (Rejected e)]) st) = GuestPage (run es st)"
  by (simp add: run_append fetchNowPlaying_settled_def)

lemma disconnected_step:
  "disconnected st \<Longrightarrow> e \<noteq> CheckAuthSettled (Resolved True) \<Longrightarrow> disconnected (step e st)"
  by (cases e)
     (auto simp: disconnected_def checkAuth_settled_def auth_effects_def interval_fires_def
        fetchNowPlaying_settled_def fetchQueue_settled_def addTrack_def addTrack_settled_def
        elapse_def timeout_fires_def Let_def split: settled.splits)

lemma disconnected_run:
  "disconnected st \<Longrightarrow> CheckAuthSettled (Resolved True) \<notin> set es \<Longrightarrow> disconnected (run es st)"
proof (induction es arbitrary: st)
  case Nil
  then show ?case by simp
next
  case (Cons e es)
  have "e \<noteq> CheckAuthSettled (Resolved True)" using Cons.prems(2) by auto
  with Cons.prems(1) have "disconnected (step e st)" by (rule disconnected_step)
  moreover have "CheckAuthSettled (Resolved True) \<notin> set es" using Cons.prems(2) by simp
  ultimately show ?case using Cons.IH by simp
qed

text \<open>
  C9. As long as the status endpoint has not reported \<open>authenticated = true\<close> (it reported
  false, or the call failed), whatever else happens the page has sent no now-playing and no
  queue read, has no polling interval, and renders the waiting-for-connection view.
\<close>

theorem unauthenticated_never_polls:
  assumes "CheckAuthSettled (Resolved True) \<notin> set es"
  shows "\<not> isAuthenticated (run es (mount initial_page)) \<and>
         intervals (run es (mount initial_page)) = [] \<and>
         Get getNowPlaying \<notin> set (sent (run es (mount initial_page))) \<and>
         Get getQueue \<notin> set (sent (run es (mount initial_page))) \<and>
         GuestPage (run es (mount initial_page)) = WaitingForConnection"
proof -
  have "disconnected (mount initial_page)"
    by (simp add: disconnected_def mount_def auth_effects_def initial_page_def)
  then have "disconnected (run es (mount initial_page))"
    using assms by (rule disconnected_run)
  then show ?thesis by (simp add: disconnected_def GuestPage_def)
qed

theorem unauthenticated_never_polls_witness:
  "CheckAuthSettled (Resolved True) \<notin>
     set [CheckAuthSettled (Resolved False), IntervalFires getNowPlaying, Elapse 5000] \<and>
   sent (run [CheckAuthSettled (Resolved False), IntervalFires getNowPlaying, Elapse 5000]
          (mount initial_page)) = [Get checkAuth] \<and>
   GuestPage (run [CheckAuthSettled (Resolved False), IntervalFires getNowPlaying, Elapse 5000]
          (mount initial_page)) = WaitingForConnection"
  using unauthenticated_never_polls
    [of "[CheckAuthSettled (Resolved False), IntervalFires getNowPlaying, Elapse 5000]"]
  by (simp add: mount_def auth_effects_def initial_page_def checkAuth_settled_def
        interval_fires_def elapse_def)

section \<open>The queue engine: ordering\<close>

lemma partitioned_filter:
  "partitioned es \<Longrightarrow> es = filter is_priority es @ filter (\<lambda>e. \<not> is_priority e) es"
proof (induction es)
  case Nil
  show ?case by simp
next
  case (Cons e es)
  show ?case
  proof (cases "is_priority e")
    case True
    then show ?thesis using Cons by simp
  next
    case False
    then have a: "list_all (\<lambda>x. \<not> is_priority x) es" using Cons.prems by simp
    then have "filter is_priority es = []" "filter (\<lambda>e. \<not> is_priority e) es = es"
      by (simp_all add: list_all_iff)
    then show ?thesis using False by simp
  qed
qed

lemma partitioned_append:
  "list_all is_priority ps \<Longrightarrow> list_all (\<lambda>x. \<not> is_priority x) fs \<Longrightarrow> partitioned (ps @ fs)"
proof (induction ps)
  case Nil
  then show ?case by (induction fs) simp_all
next
  case (Cons p ps)
  then show ?case by simp
qed

lemma partitioned_filters:
  "partitioned (filter is_priority xs @ filter (\<lambda>e. \<not> is_priority e) xs)"
  by (rule partitioned_append) (simp_all add: list_all_iff)

lemma takeWhile_partitioned:
  "partitioned es \<Longrightarrow> takeWhile is_priority es = filter is_priority es"
proof (induction es)
  case Nil
  show ?case by simp
next
  case (Cons e es)
  show ?case
  proof (cases "is_priority e")
    case True
    then show ?thesis using Cons by simp
  next
    case False
    then have "list_all (\<lambda>x. \<not> is_priority x) es" using Cons.prems by simp
    then have "filter is_priority es = []" by (simp add: list_all_iff)
    then show ?thesis using False by simp
  qed
qed

lemma dropWhile_partitioned:
  assumes "partitioned es"
  shows "dropWhile is_priority es = filter (\<lambda>e. \<not> is_priority e) es"
proof -
  have "takeWhile is_priority es @ dropWhile is_priority es =
        filter is_priority es @ filter (\<lambda>e. \<not> is_priority e) es"
    using partitioned_filter[OF assms] by simp
  then show ?thesis using takeWhile_partitioned[OF assms] by simp
qed

lemma priority_slot_insert:
  assumes "partitioned es"
  shows "insert_at (priority_slot es) e es =
           filter is_priority es @ [e] @ filter (\<lambda>e. \<not> is_priority e) es"
proof -
  have "take (priority_slot es) es = takeWhile is_priority es"
    unfolding priority_slot_def by (rule takeWhile_eq_take[symmetric])
  moreover have "drop (priority_slot es) es = dropWhile is_priority es"
    unfolding priority_slot_def by (rule dropWhile_eq_drop[symmetric])
  ultimately show ?thesis
    using takeWhile_partitioned[OF assms] dropWhile_partitioned[OF assms]
    by (simp add: insert_at_def)
qed

lemma last_free:
  "partitioned es \<Longrightarrow> \<not> list_all is_priority es \<Longrightarrow> \<not> is_priority (last es)"
proof (induction es)
  case Nil
  then show ?case by simp
next
  case (Cons e es)
  show ?case
  proof (cases "es = []")
    case True
    then show ?thesis using Cons.prems by simp
  next
    case False
    have "\<not> list_all is_priority es"
    proof (cases "is_priority e")
      case True
      then show ?thesis using Cons.prems(2) by simp
    next
      case f: False
      then have "list_all (\<lambda>x. \<not> is_priority x) es" using Cons.prems(1) by simp
      then show ?thesis using False by (cases es) simp_all
    qed
    then have "\<not> is_priority (last es)" using Cons.IH Cons.prems(1) by simp
    then show ?thesis using False by simp
  qed
qed

lemma free_slot_partitioned:
  assumes "partitioned es"
  shows "free_slot es = length es"
proof (cases "list_all is_priority es")
  case True
  then show ?thesis by (simp add: free_slot_def)
next
  case False
  then have ne: "es \<noteq> []" by auto
  have "\<not> is_priority (last es)" using assms False by (rule last_free)
  then have "\<not> is_priority (hd (rev es))" using ne by (simp add: hd_rev)
  then have "takeWhile is_priority (rev es) = []"
    using ne by (cases "rev es") simp_all
  then show ?thesis using False by (simp add: free_slot_def)
qed

lemma free_slot_insert:
  assumes "partitioned es" and "\<not> is_priority e"
  shows "insert_at (free_slot es) e es =
           filter is_priority (es @ [e]) @ filter (\<lambda>e. \<not> is_priority e) (es @ [e])"
proof -
  have "insert_at (free_slot es) e es = es @ [e]"
    using free_slot_partitioned[OF assms(1)] by (simp add: insert_at_def)
  also have "\<dots> = (filter is_priority es @ filter (\<lambda>e. \<not> is_priority e) es) @ [e]"
    using partitioned_filter[OF assms(1)] by simp
  finally show ?thesis using assms(2) by simp
qed

lemma admit_entries:
  "entries (snd (admit cfg prio t who now up st)) =
     (case fst (admit cfg prio t who now up st) of
        Inr _ \<Rightarrow> insert_at (if prio then priority_slot (entries st) else free_slot (entries st))
                   (new_entry t who now prio) (entries st)
      | Inl _ \<Rightarrow> entries st)"
  by (cases up) (simp_all add: admit_def Let_def)

lemma serve1_entries:
  assumes "partitioned (entries st)" and "is_add r"
  shows "entries (serve1 cfg r st) =
           filter is_priority (entries st @ created cfg r st) @
           filter (\<lambda>e. \<not> is_priority e) (entries st @ created cfg r st)"
proof (cases r)
  case (AddFree t who now up)
  show ?thesis
  proof (cases "fst (add_free cfg t who now up st)")
    case (Inl err)
    then show ?thesis using AddFree admit_entries[of cfg False t who now up st]
        partitioned_filter[OF assms(1)]
      by (simp add: add_free_def)
  next
    case (Inr pos)
    have "\<not> is_priority (new_entry t who now False)" by (simp add: new_entry_def)
    from free_slot_insert[OF assms(1) this]
    show ?thesis using AddFree Inr admit_entries[of cfg False t who now up st]
      by (simp add: add_free_def)
  qed
next
  case (AddPriority t who now up)
  show ?thesis
  proof (cases "fst (add_priority cfg t who now up st)")
    case (Inl err)
    then show ?thesis using AddPriority admit_entries[of cfg True t who now up st]
        partitioned_filter[OF assms(1)]
      by (simp add: add_priority_def)
  next
    case (Inr pos)
    have "is_priority (new_entry t who now True)" by (simp add: new_entry_def)
    then show ?thesis
      using AddPriority Inr admit_entries[of cfg True t who now up st]
        priority_slot_insert[OF assms(1), of "new_entry t who now True"]
      by (simp add: add_priority_def)
  qed
next
  case (PromoteExisting u)
  then show ?thesis using assms(2) by simp
qed

lemma list_all_remove1: "list_all P xs \<Longrightarrow> list_all P (remove1 x xs)"
  by (induction xs) simp_all

lemma partitioned_remove1: "partitioned es \<Longrightarrow> partitioned (remove1 x es)"
  by (induction es) (auto intro: list_all_remove1)

lemma partitioned_serve1:
  assumes "partitioned (entries st)"
  shows "partitioned (entries (serve1 cfg r st))"
proof (cases "is_add r")
  case True
  show ?thesis unfolding serve1_entries[OF assms True] by (rule partitioned_filters)
next
  case False
  then obtain u where r: "r = PromoteExisting u" by (cases r) simp_all
  show ?thesis
  proof (cases "List.find (\<lambda>e. uri (track e) = u) (entries st)")
    case None
    then show ?thesis using assms r by (simp add: promote_existing_def)
  next
    case (Some e)
    then show ?thesis using r partitioned_remove1[OF assms, of e]
      by (simp add: promote_existing_def)
  qed
qed

lemma partitioned_serve:
  "partitioned (entries st) \<Longrightarrow> partitioned (entries (serve cfg rs st))"
proof (induction rs arbitrary: st)
  case Nil
  then show ?case by simp
next
  case (Cons r rs)
  have "partitioned (entries (serve1 cfg r st))" using Cons.prems by (rule partitioned_serve1)
  then show ?case using Cons.IH by simp
qed

lemma serve_entries:
  "partitioned (entries st) \<Longrightarrow> list_all is_add rs \<Longrightarrow>
   entries (serve cfg rs st) =
     filter is_priority (entries st @ submitted cfg rs st) @
     filter (\<lambda>e. \<not> is_priority e) (entries st @ submitted cfg rs st)"
proof (induction rs arbitrary: st)
  case Nil
  then show ?case using partitioned_filter by simp
next
  case (Cons r rs)
  have add: "is_add r" and adds: "list_all is_add rs" using Cons.prems(2) by simp_all
  have e1: "entries (serve1 cfg r st) =
           filter is_priority (entries st @ created cfg r st) @
           filter (\<lambda>e. \<not> is_priority e) (entries st @ created cfg r st)"
    using Cons.prems(1) add by (rule serve1_entries)
  have p1: "partitioned (entries (serve1 cfg r st))"
    using Cons.prems(1) by (rule partitioned_serve1)
  have "entries (serve cfg (r # rs) st) = entries (serve cfg rs (serve1 cfg r st))" by simp
  also have "\<dots> =
     filter is_priority (entries (serve1 cfg r st) @ submitted cfg rs (serve1 cfg r st)) @
     filter (\<lambda>e. \<not> is_priority e) (entries (serve1 cfg r st) @ submitted cfg rs (serve1 cfg r st))"
    using p1 adds by (rule Cons.IH)
  also have "\<dots> =
     filter is_priority (entries st @ submitted cfg (r # rs) st) @
     filter (\<lambda>e. \<not> is_priority e) (entries st @ submitted cfg (r # rs) st)"
    unfolding e1 by simp
  finally show ?case .
qed

lemma partitioned_nth:
  "partitioned es \<Longrightarrow> i < j \<Longrightarrow> j < length es \<Longrightarrow> is_priority (es ! j) \<Longrightarrow> is_priority (es ! i)"
proof (induction es arbitrary: i j)
  case Nil
  then show ?case by simp
next
  case (Cons e es)
  obtain j' where j: "j = Suc j'" using Cons.prems(2) by (cases j) simp_all
  show ?case
  proof (cases i)
    case 0
    have "es ! j' \<in> set es" using Cons.prems(3) j by simp
    then have "\<not> list_all (\<lambda>x. \<not> is_priority x) es"
      using Cons.prems(4) j by (auto simp: list_all_iff)
    then show ?thesis using Cons.prems(1) 0 by simp
  next
    case (Suc i')
    then show ?thesis using Cons.IH[of i' j'] Cons.prems j by simp
  qed
qed

text \<open>
  C1. After any sequence of add_free, add_priority and promote_existing calls, no priority
  entry of \<open>list()\<close> comes after a free entry. After any interleaving of add_free and
  add_priority calls alone, \<open>list()\<close> is the priority entries in submission order followed
  by the free entries in submission order.
\<close>

theorem priority_before_free_fifo:
  "(\<forall>i j. i < j \<and> j < length (list_entries (serve cfg rs initial_engine)) \<and>
           is_priority (list_entries (serve cfg rs initial_engine) ! j) \<longrightarrow>
           is_priority (list_entries (serve cfg rs initial_engine) ! i)) \<and>
   (list_all is_add rs \<longrightarrow>
      list_entries (serve cfg rs initial_engine) =
        filter is_priority (submitted cfg rs initial_engine) @
        filter (\<lambda>e. \<not> is_priority e) (submitted cfg rs initial_engine))"
proof -
  have p0: "partitioned (entries initial_engine)" by (simp add: initial_engine_def)
  have p: "partitioned (entries (serve cfg rs initial_engine))"
    using p0 by (rule partitioned_serve)
  have a: "\<forall>i j. i < j \<and> j < length (list_entries (serve cfg rs initial_engine)) \<and>
           is_priority (list_entries (serve cfg rs initial_engine) ! j) \<longrightarrow>
           is_priority (list_entries (serve cfg rs initial_engine) ! i)"
    unfolding list_entries_def using partitioned_nth[OF p] by blast
  have b: "list_all is_add rs \<longrightarrow>
      list_entries (serve cfg rs initial_engine) =
        filter is_priority (submitted cfg rs initial_engine) @
        filter (\<lambda>e. \<not> is_priority e) (submitted cfg rs initial_engine)"
  proof
    assume "list_all is_add rs"
    with p0 have "entries (serve cfg rs initial_engine) =
       filter is_priority (entries initial_engine @ submitted cfg rs initial_engine) @
       filter (\<lambda>e. \<not> is_priority e) (entries initial_engine @ submitted cfg rs initial_engine)"
      by (rule serve_entries)
    then show "list_entries (serve cfg rs initial_engine) =
        filter is_priority (submitted cfg rs initial_engine) @
        filter (\<lambda>e. \<not> is_priority e) (submitted cfg rs initial_engine)"
      by (simp add: list_entries_def initial_engine_def)
  qed
  show ?thesis using a b by (rule conjI)
qed


lemma demo_submitted:
  "submitted demo_config demo_requests initial_engine =
     [new_entry demo_track None 0 False, new_entry other_track None 10 True,
      new_entry demo_track None 5000 True]"
  by (simp add: demo_requests_def demo_config_def initial_engine_def add_free_def
        add_priority_def admit_def in_flight_guard_def is_in_cooldown_def remaining_def
        Let_def demo_track_def other_track_def)

theorem priority_before_free_fifo_witness:
  "list_all is_add demo_requests \<and>
   list_entries (serve demo_config demo_requests initial_engine) =
     [new_entry other_track None 10 True, new_entry demo_track None 5000 True,
      new_entry demo_track None 0 False] \<and>
   is_priority (list_entries (serve demo_config demo_requests initial_engine) ! 1) \<and>
   is_priority (list_entries (serve demo_config demo_requests initial_engine) ! 0)"
proof -
  note th = priority_before_free_fifo[of demo_config demo_requests]
  have a: "list_all is_add demo_requests" by (simp add: demo_requests_def)
  have "list_entries (serve demo_config demo_requests initial_engine) =
        filter is_priority (submitted demo_config demo_requests initial_engine) @
        filter (\<lambda>e. \<not> is_priority e) (submitted demo_config demo_requests initial_engine)"
    using th a by blast
  then have l: "list_entries (serve demo_config demo_requests initial_engine) =
     [new_entry other_track None 10 True, new_entry demo_track None 5000 True,
      new_entry demo_track None 0 False]"
    unfolding demo_submitted by (simp add: new_entry_def)
  have p1: "is_priority (list_entries (serve demo_config demo_requests initial_engine) ! 1)"
    unfolding l by (simp add: new_entry_def)
  have n: "(0::nat) < 1 \<and> 1 < length (list_entries (serve demo_config demo_requests initial_engine))"
    unfolding l by simp
  have p0: "is_priority (list_entries (serve demo_config demo_requests initial_engine) ! 0)"
    using th[THEN conjunct1, rule_format, of 0 1] n p1 by blast
  show ?thesis using a l p1 p0 by (intro conjI)
qed

section \<open>The queue engine: duplicate submissions, promotion and reset\<close>

lemma admit_success:
  assumes "admit cfg prio t who now up st = (Inr pos, st1)"
  shows "\<exists>i. st1 = st\<lparr>in_flight := (in_flight st)(uri t := Some now),
                       entries := insert_at i (new_entry t who now prio) (entries st)\<rparr>"
proof -
  have g: "\<not> in_flight_guard cfg st (uri t) now" "\<not> is_in_cooldown cfg st (uri t) now"
    using assms by (auto simp: admit_def split: if_splits)
  show ?thesis
  proof (cases up)
    case Acknowledged
    then show ?thesis using assms g by (auto simp: admit_def Let_def)
  next
    case Declined
    then show ?thesis using assms g by (simp add: admit_def Let_def)
  next
    case TimedOut
    then show ?thesis using assms g by (simp add: admit_def Let_def)
  qed
qed

lemma filter_insert_at:
  "length (filter P (insert_at i e es)) = length (filter P es) + (if P e then 1 else 0)"
proof -
  have "length (filter P es) = length (filter P (take i es @ drop i es))" by simp
  also have "\<dots> = length (filter P (take i es)) + length (filter P (drop i es))"
    unfolding filter_append by simp
  finally show ?thesis by (simp add: insert_at_def)
qed

text \<open>
  C2. Two submissions of one track inside the guard window. In the engine: when the first
  \<open>add_free\<close> succeeds, a second one before the guard window has passed fails with
  DuplicateInFlight and changes nothing, so the two calls leave exactly one more entry for
  the uri. On the page: \<open>addTrack\<close> for a uri already in \<open>addingRef\<close> returns without
  changing anything, and two calls in a row post one request.
\<close>

theorem duplicate_submission_rejected:
  "(add_free cfg t who now up st = (Inr pos, st1) \<and> now' < now + guard_window cfg \<longrightarrow>
      add_free cfg t who' now' up' st1 = (Inl DuplicateInFlight, st1) \<and>
      length (filter (\<lambda>e. uri (track e) = uri t) (entries st1)) =
        Suc (length (filter (\<lambda>e. uri (track e) = uri t) (entries st)))) \<and>
   (uri t \<in> addingRef pg \<longrightarrow> addTrack t pg = pg) \<and>
   (uri t \<notin> addingRef pg \<longrightarrow>
      sent (addTrack t (addTrack t pg)) = sent pg @ [Post addTrackEP (track_body t)])"
proof -
  have a: "add_free cfg t who now up st = (Inr pos, st1) \<and> now' < now + guard_window cfg \<longrightarrow>
      add_free cfg t who' now' up' st1 = (Inl DuplicateInFlight, st1) \<and>
      length (filter (\<lambda>e. uri (track e) = uri t) (entries st1)) =
        Suc (length (filter (\<lambda>e. uri (track e) = uri t) (entries st)))"
  proof
    assume h: "add_free cfg t who now up st = (Inr pos, st1) \<and> now' < now + guard_window cfg"
    then obtain i where st1: "st1 = st\<lparr>in_flight := (in_flight st)(uri t := Some now),
                       entries := insert_at i (new_entry t who now False) (entries st)\<rparr>"
      using admit_success[of cfg False t who now up st pos st1] by (auto simp: add_free_def)
    have g: "in_flight_guard cfg st1 (uri t) now'"
      using h by (simp add: st1 in_flight_guard_def)
    have 1: "add_free cfg t who' now' up' st1 = (Inl DuplicateInFlight, st1)"
      using g by (simp add: add_free_def admit_def)
    have 2: "length (filter (\<lambda>e. uri (track e) = uri t) (entries st1)) =
        Suc (length (filter (\<lambda>e. uri (track e) = uri t) (entries st)))"
      by (simp add: st1 filter_insert_at new_entry_def)
    show "add_free cfg t who' now' up' st1 = (Inl DuplicateInFlight, st1) \<and>
      length (filter (\<lambda>e. uri (track e) = uri t) (entries st1)) =
        Suc (length (filter (\<lambda>e. uri (track e) = uri t) (entries st)))"
      using 1 2 by (rule conjI)
  qed
  have b: "uri t \<in> addingRef pg \<longrightarrow> addTrack t pg = pg"
    by (simp add: addTrack_def)
  have c: "uri t \<notin> addingRef pg \<longrightarrow>
      sent (addTrack t (addTrack t pg)) = sent pg @ [Post addTrackEP (track_body t)]"
    by (simp add: addTrack_def)
  show ?thesis using a b c by (intro conjI)
qed

theorem duplicate_submission_rejected_witness:
  "fst (add_free demo_config demo_track None 0 Acknowledged initial_engine) = Inr 1 \<and>
   fst (add_free demo_config demo_track None 1500 Acknowledged
          (snd (add_free demo_config demo_track None 0 Acknowledged initial_engine))) =
     Inl DuplicateInFlight \<and>
   length (entries (snd (add_free demo_config demo_track None 1500 Acknowledged
          (snd (add_free demo_config demo_track None 0 Acknowledged initial_engine))))) = 1 \<and>
   sent (addTrack demo_track (addTrack demo_track initial_page)) =
     [Post addTrackEP (track_body demo_track)] \<and>
   uri demo_track \<in> addingRef (addTrack demo_track initial_page) \<and>
   addTrack demo_track (addTrack demo_track initial_page) = addTrack demo_track initial_page"
proof -
  define st1 where "st1 = snd (add_free demo_config demo_track None 0 Acknowledged initial_engine)"
  have f: "fst (add_free demo_config demo_track None 0 Acknowledged initial_engine) = Inr 1"
    by (simp add: add_free_def admit_def in_flight_guard_def is_in_cooldown_def remaining_def
          initial_engine_def Let_def free_slot_def)
  then have e: "add_free demo_config demo_track None 0 Acknowledged initial_engine = (Inr 1, st1)"
    unfolding st1_def by (simp add: prod_eq_iff)
  have w: "(1500::int) < 0 + guard_window demo_config" by (simp add: demo_config_def)
  note th = duplicate_submission_rejected[of demo_config demo_track None 0 Acknowledged
      initial_engine 1 st1 1500 None Acknowledged initial_page]
  have d: "add_free demo_config demo_track None 1500 Acknowledged st1 = (Inl DuplicateInFlight, st1)"
    and n: "length (filter (\<lambda>e. uri (track e) = uri demo_track) (entries st1)) =
        Suc (length (filter (\<lambda>e. uri (track e) = uri demo_track) (entries initial_engine)))"
    using th e w by blast+
  have l: "length (entries st1) = 1"
    unfolding st1_def
    by (simp add: add_free_def admit_def in_flight_guard_def is_in_cooldown_def remaining_def
          initial_engine_def Let_def free_slot_def insert_at_def)
  have i: "uri demo_track \<notin> addingRef initial_page" by (simp add: initial_page_def)
  have s: "sent (addTrack demo_track (addTrack demo_track initial_page)) =
     sent initial_page @ [Post addTrackEP (track_body demo_track)]"
    using th i by blast
  have s': "sent (addTrack demo_track (addTrack demo_track initial_page)) =
     [Post addTrackEP (track_body demo_track)]"
    using s by (simp add: initial_page_def)
  have "fst (add_free demo_config demo_track None 1500 Acknowledged st1) = Inl DuplicateInFlight"
    and "length (entries (snd (add_free demo_config demo_track None 1500 Acknowledged st1))) = 1"
    using d l by simp_all
  then have d': "fst (add_free demo_config demo_track None 1500 Acknowledged
          (snd (add_free demo_config demo_track None 0 Acknowledged initial_engine))) =
     Inl DuplicateInFlight"
    and l': "length (entries (snd (add_free demo_config demo_track None 1500 Acknowledged
          (snd (add_free demo_config demo_track None 0 Acknowledged initial_engine))))) = 1"
    unfolding st1_def by simp_all
  have h: "uri demo_track \<in> addingRef (addTrack demo_track initial_page)"
    by (simp add: addTrack_def initial_page_def)
  have u: "addTrack demo_track (addTrack demo_track initial_page) =
      addTrack demo_track initial_page"
    using duplicate_submission_rejected[of demo_config demo_track None 0 Acknowledged
      initial_engine 1 st1 1500 None Acknowledged "addTrack demo_track initial_page"] h
    by blast
  show ?thesis using f d' l' s' h u by (intro conjI)
qed

lemma busy_engine_fields:
  "in_flight busy_engine (uri demo_track) = Some 0"
  "cooldowns busy_engine (uri demo_track) = Some 1000"
  by (simp_all add: busy_engine_def on_track_change_def add_free_def admit_def
        in_flight_guard_def is_in_cooldown_def remaining_def initial_engine_def Let_def)

lemma find_first:
  "List.find P xs = Some e \<Longrightarrow> P e \<and> e \<in> set xs"
  by (induction xs) (auto split: if_splits)

lemma find_none: "List.find P xs = None \<longleftrightarrow> (\<forall>x \<in> set xs. \<not> P x)"
  by (induction xs) auto

text \<open>
  C5. When the uri is a tracked entry, \<open>promote_existing\<close> succeeds and \<open>list()\<close> then
  has an entry of that uri, marked priority, at index 0, with as many entries as before.
  When it is not tracked, the call fails with NotFound and the engine is unchanged.
\<close>

theorem promote_existing_to_front:
  "(u \<in> (\<lambda>e. uri (track e)) ` set (entries st) \<longrightarrow>
      fst (promote_existing u st) = Inr True \<and>
      list_entries (snd (promote_existing u st)) \<noteq> [] \<and>
      uri (track (list_entries (snd (promote_existing u st)) ! 0)) = u \<and>
      is_priority (list_entries (snd (promote_existing u st)) ! 0) \<and>
      length (list_entries (snd (promote_existing u st))) = length (list_entries st)) \<and>
   (u \<notin> (\<lambda>e. uri (track e)) ` set (entries st) \<longrightarrow>
      promote_existing u st = (Inl NotFound, st))"
proof -
  have a: "u \<in> (\<lambda>e. uri (track e)) ` set (entries st) \<longrightarrow>
      fst (promote_existing u st) = Inr True \<and>
      list_entries (snd (promote_existing u st)) \<noteq> [] \<and>
      uri (track (list_entries (snd (promote_existing u st)) ! 0)) = u \<and>
      is_priority (list_entries (snd (promote_existing u st)) ! 0) \<and>
      length (list_entries (snd (promote_existing u st))) = length (list_entries st)"
  proof
    assume "u \<in> (\<lambda>e. uri (track e)) ` set (entries st)"
    then have "List.find (\<lambda>e. uri (track e) = u) (entries st) \<noteq> None"
      unfolding find_none by auto
    then obtain e where f: "List.find (\<lambda>e. uri (track e) = u) (entries st) = Some e"
      by auto
    then have e: "uri (track e) = u" "e \<in> set (entries st)"
      using find_first[OF f] by simp_all
    have r: "promote_existing u st =
               (Inr True, st\<lparr>entries := e\<lparr>is_priority := True\<rparr> # remove1 e (entries st)\<rparr>)"
      using f by (simp add: promote_existing_def)
    have l: "length (remove1 e (entries st)) = length (entries st) - 1"
      using e(2) by (simp add: length_remove1)
    have "length (entries st) \<noteq> 0" using e(2) by auto
    then show "fst (promote_existing u st) = Inr True \<and>
      list_entries (snd (promote_existing u st)) \<noteq> [] \<and>
      uri (track (list_entries (snd (promote_existing u st)) ! 0)) = u \<and>
      is_priority (list_entries (snd (promote_existing u st)) ! 0) \<and>
      length (list_entries (snd (promote_existing u st))) = length (list_entries st)"
      unfolding r using e(1) l by (simp add: list_entries_def)
  qed
  have b: "u \<notin> (\<lambda>e. uri (track e)) ` set (entries st) \<longrightarrow>
      promote_existing u st = (Inl NotFound, st)"
  proof
    assume "u \<notin> (\<lambda>e. uri (track e)) ` set (entries st)"
    then have "List.find (\<lambda>e. uri (track e) = u) (entries st) = None"
      unfolding find_none by auto
    then show "promote_existing u st = (Inl NotFound, st)"
      by (simp add: promote_existing_def)
  qed
  show ?thesis using a b by (rule conjI)
qed

theorem promote_existing_to_front_witness:
  "uri demo_track \<in> (\<lambda>e. uri (track e)) ` set (entries demo_queue) \<and>
   list_entries (snd (promote_existing (uri demo_track) demo_queue)) =
     [new_entry demo_track None 0 True, new_entry other_track None 10 True] \<and>
   uri (track (list_entries (snd (promote_existing (uri demo_track) demo_queue)) ! 0)) =
     uri demo_track \<and>
   ''spotify:track:9'' \<notin> (\<lambda>e. uri (track e)) ` set (entries demo_queue) \<and>
   promote_existing ''spotify:track:9'' demo_queue = (Inl NotFound, demo_queue)"
proof -
  have m: "uri demo_track \<in> (\<lambda>e. uri (track e)) ` set (entries demo_queue)"
    by (simp add: demo_queue_def new_entry_def)
  have n: "''spotify:track:9'' \<notin> (\<lambda>e. uri (track e)) ` set (entries demo_queue)"
    by (simp add: demo_queue_def new_entry_def demo_track_def other_track_def)
  have h: "uri (track (list_entries (snd (promote_existing (uri demo_track) demo_queue)) ! 0)) =
     uri demo_track"
    using promote_existing_to_front[of "uri demo_track" demo_queue] m by blast
  have f: "promote_existing ''spotify:track:9'' demo_queue = (Inl NotFound, demo_queue)"
    using promote_existing_to_front[of "''spotify:track:9''" demo_queue] n by blast
  have l: "list_entries (snd (promote_existing (uri demo_track) demo_queue)) =
     [new_entry demo_track None 0 True, new_entry other_track None 10 True]"
    by (simp add: promote_existing_def list_entries_def demo_queue_def new_entry_def
          demo_track_def other_track_def)
  show ?thesis using m l h n f by (intro conjI)
qed

text \<open>
  C6. \<open>reset()\<close> leaves no tracked entry and nothing in the in-flight guard, and leaves
  the cooldown records as they were: remaining cooldown and \<open>is_in_cooldown\<close> are the same
  before and after, so a track played less than a cooldown window ago is still in cooldown
  after the reset.
\<close>

theorem reset_keeps_cooldowns:
  "list_entries (reset st) = [] \<and>
   \<not> in_flight_guard cfg (reset st) u now \<and>
   cooldowns (reset st) = cooldowns st \<and>
   remaining cfg (reset st) u now = remaining cfg st u now \<and>
   is_in_cooldown cfg (reset st) u now = is_in_cooldown cfg st u now \<and>
   (cooldowns st u = Some last_played_at \<and> now - last_played_at < cooldown_window cfg \<longrightarrow>
      is_in_cooldown cfg (reset st) u now)"
  by (simp add: reset_def list_entries_def in_flight_guard_def remaining_def is_in_cooldown_def)

theorem reset_keeps_cooldowns_witness:
  "cooldowns busy_engine (uri demo_track) = Some 1000 \<and>
   (1500::int) - 1000 < cooldown_window demo_config \<and>
   entries busy_engine \<noteq> [] \<and>
   in_flight_guard demo_config busy_engine (uri demo_track) 1500 \<and>
   list_entries (reset busy_engine) = [] \<and>
   \<not> in_flight_guard demo_config (reset busy_engine) (uri demo_track) 1500 \<and>
   is_in_cooldown demo_config (reset busy_engine) (uri demo_track) 1500"
proof -
  have k: "cooldowns busy_engine (uri demo_track) = Some 1000" by (rule busy_engine_fields(2))
  have w: "(1500::int) - 1000 < cooldown_window demo_config" by (simp add: demo_config_def)
  have e: "entries busy_engine \<noteq> []"
    by (simp add: busy_engine_def on_track_change_def add_free_def admit_def
        in_flight_guard_def is_in_cooldown_def remaining_def initial_engine_def Let_def
        insert_at_def)
  have b: "in_flight_guard demo_config busy_engine (uri demo_track) 1500"
    by (simp add: in_flight_guard_def busy_engine_fields demo_config_def)
  note th = reset_keeps_cooldowns[of busy_engine demo_config "uri demo_track" 1500 1000]
  show ?thesis using k w e b th by blast
qed

section \<open>The paid actions and the admin page\<close>

lemma cooldown_disables_add_button: "in_cooldown t \<Longrightarrow> add_button_disabled pg t"
  by (simp add: add_button_disabled_def)

text \<open>
  C8. \<open>skipQueue\<close> and \<open>moveToNext\<close> open the payment link and post the priority request
  whatever happens to the payment: the request is built from the track alone, and it is
  the same request whether or not the payment was completed.
\<close>

theorem paid_request_ignores_payment:
  "posted (skipQueue t (w\<lparr>payment_completed := p\<rparr>)) =
     posted w @ [Post (BACKEND_URL w @ ''/api'' @ ''/spotify/skip-paid'') (track_body t)] \<and>
   posted (moveToNext t (w\<lparr>payment_completed := p\<rparr>)) =
     posted w @ [Post (BACKEND_URL w @ ''/api'' @ ''/spotify/move-to-next'') (track_body t)] \<and>
   windows (skipQueue t (w\<lparr>payment_completed := p\<rparr>)) = windows w @ [squareLink w] \<and>
   windows (moveToNext t (w\<lparr>payment_completed := p\<rparr>)) = windows w @ [squareLink w] \<and>
   posted (skipQueue t (w\<lparr>payment_completed := True\<rparr>)) =
     posted (skipQueue t (w\<lparr>payment_completed := False\<rparr>)) \<and>
   posted (moveToNext t (w\<lparr>payment_completed := True\<rparr>)) =
     posted (moveToNext t (w\<lparr>payment_completed := False\<rparr>))"
  by (simp add: skipQueue_def moveToNext_def API_def Let_def)

lemma connected_step: "connected api st \<Longrightarrow> connected api (admin_step api e st)"
  by (cases e) (auto simp: connected_def split: settled.splits)

lemma connected_run: "connected api st \<Longrightarrow> connected api (admin_run api es st)"
proof (induction es arbitrary: st)
  case Nil
  then show ?case by simp
next
  case (Cons e es)
  from Cons.prems have "connected api (admin_step api e st)" by (rule connected_step)
  then show ?case using Cons.IH by simp
qed

text \<open>
  C10. When the URL parameter \<open>auth\<close> is \<open>success\<close>, the admin page is authenticated and
  shows the connected view after mount and after anything that follows, and never sends a
  request to the status endpoint. With any other query the mount effect asks the status
  endpoint, and the flag stays false until it answers.
\<close>

theorem admin_auth_from_url:
  "(params_get params ''auth'' = Some ''success'' \<longrightarrow>
      admin_isAuthenticated (admin_run api es (AdminPage_mount api params initial_admin)) \<and>
      AdminPage (admin_run api es (AdminPage_mount api params initial_admin)) = ConnectedView \<and>
      Get (api @ ''/spotify/status'') \<notin>
        set (admin_sent (admin_run api es (AdminPage_mount api params initial_admin)))) \<and>
   (params_get params ''auth'' \<noteq> Some ''success'' \<longrightarrow>
      admin_sent (AdminPage_mount api params initial_admin) = [Get (api @ ''/spotify/status'')] \<and>
      \<not> admin_isAuthenticated (AdminPage_mount api params initial_admin) \<and>
      AdminPage (AdminPage_mount api params initial_admin) = LoadingView)"
proof -
  have a: "params_get params ''auth'' = Some ''success'' \<longrightarrow>
      admin_isAuthenticated (admin_run api es (AdminPage_mount api params initial_admin)) \<and>
      AdminPage (admin_run api es (AdminPage_mount api params initial_admin)) = ConnectedView \<and>
      Get (api @ ''/spotify/status'') \<notin>
        set (admin_sent (admin_run api es (AdminPage_mount api params initial_admin)))"
  proof
    assume "params_get params ''auth'' = Some ''success''"
    then have "connected api (AdminPage_mount api params initial_admin)"
      by (simp add: connected_def AdminPage_mount_def initial_admin_def)
    then have "connected api (admin_run api es (AdminPage_mount api params initial_admin))"
      by (rule connected_run)
    then show "admin_isAuthenticated (admin_run api es (AdminPage_mount api params initial_admin)) \<and>
      AdminPage (admin_run api es (AdminPage_mount api params initial_admin)) = ConnectedView \<and>
      Get (api @ ''/spotify/status'') \<notin>
        set (admin_sent (admin_run api es (AdminPage_mount api params initial_admin)))"
      by (simp add: connected_def AdminPage_def)
  qed
  have b: "params_get params ''auth'' \<noteq> Some ''success'' \<longrightarrow>
      admin_sent (AdminPage_mount api params initial_admin) = [Get (api @ ''/spotify/status'')] \<and>
      \<not> admin_isAuthenticated (AdminPage_mount api params initial_admin) \<and>
      AdminPage (AdminPage_mount api params initial_admin) = LoadingView"
    by (simp add: AdminPage_mount_def initial_admin_def AdminPage_def)
  show ?thesis using a b by (rule conjI)
qed

theorem admin_auth_from_url_witness:
  "params_get [(''auth'', ''success'')] ''auth'' = Some ''success'' \<and>
   AdminPage (admin_run ''http://dj/api'' [ResetQueueClicked]
      (AdminPage_mount ''http://dj/api'' [(''auth'', ''success'')] initial_admin)) = ConnectedView \<and>
   admin_sent (admin_run ''http://dj/api'' [ResetQueueClicked]
      (AdminPage_mount ''http://dj/api'' [(''auth'', ''success'')] initial_admin)) =
     [Post ''http://dj/api/admin/reset-queue-state'' []] \<and>
   params_get [] ''auth'' \<noteq> Some ''success'' \<and>
   admin_sent (AdminPage_mount ''http://dj/api'' [] initial_admin) =
     [Get ''http://dj/api/spotify/status'']"
proof -
  have y: "params_get [(''auth'', ''success'')] ''auth'' = Some ''success''"
    by (simp add: params_get_def)
  have n: "params_get [] ''auth'' \<noteq> Some ''success''" by (simp add: params_get_def)
  have v: "AdminPage (admin_run ''http://dj/api'' [ResetQueueClicked]
      (AdminPage_mount ''http://dj/api'' [(''auth'', ''success'')] initial_admin)) = ConnectedView"
    using admin_auth_from_url[of "[(''auth'', ''success'')]" "''http://dj/api''"
        "[ResetQueueClicked]"] y by blast
  have s: "admin_sent (admin_run ''http://dj/api'' [ResetQueueClicked]
      (AdminPage_mount ''http://dj/api'' [(''auth'', ''success'')] initial_admin)) =
     [Post ''http://dj/api/admin/reset-queue-state'' []]"
    by (simp add: AdminPage_mount_def params_get_def initial_admin_def)
  have g: "admin_sent (AdminPage_mount ''http://dj/api'' [] initial_admin) =
     [Get ''http://dj/api/spotify/status'']"
    using admin_auth_from_url[of "[]" "''http://dj/api''"] n by simp
  show ?thesis using y v s n g by (intro conjI)
qed

end
